theory Spec2Isabelle
  imports Main "HOL-Library.Char_ord"
begin

section \<open>JavaScript values, strings and errors\<close>

text \<open>
  The converters take any JavaScript value; the payload of a value that is no string
  plays no role in them. Strings are lists of characters. The development covers ASCII
  strings (\<open>ascii\<close>: every code below 128): on these \<open>toLowerCase\<close>, \<open>toUpperCase\<close>,
  \<open>trim\<close> and the regular expression class \<open>\s\<close> of JavaScript are the functions
  below, and the theorems about strings are stated for them. A thrown \<open>TypeError\<close> is
  the left injection of the result.
\<close>

datatype js_value =
    JUndefined
  | JNull
  | JBoolean bool
  | JNumber int
  | JString string
  | JFunction
  | JObject "(string \<times> js_value) list"
  | JArray "js_value list"

datatype error = TypeError string

fun typeof :: "js_value \<Rightarrow> string" where
  "typeof JUndefined = ''undefined''"
| "typeof JNull = ''object''"
| "typeof (JBoolean b) = ''boolean''"
| "typeof (JNumber n) = ''number''"
| "typeof (JString s) = ''string''"
| "typeof JFunction = ''function''"
| "typeof (JObject kvs) = ''object''"
| "typeof (JArray vs) = ''object''"

definition ascii :: "string \<Rightarrow> bool" where
  "ascii s = list_all (\<lambda>c. c \<le> CHR 0x7F) s"

subsection \<open>Character classes\<close>

text \<open>The classes \<open>[A-Z]\<close>, \<open>[a-z]\<close>, \<open>[A-Za-z0-9]\<close> and \<open>\s\<close> (tab, line feed, vertical
  tab, form feed, carriage return, space).\<close>

definition isUpper :: "char \<Rightarrow> bool" where
  "isUpper ch = (ch \<ge> CHR ''A'' \<and> ch \<le> CHR ''Z'')"

definition isLower :: "char \<Rightarrow> bool" where
  "isLower ch = (ch \<ge> CHR ''a'' \<and> ch \<le> CHR ''z'')"

definition isDigit :: "char \<Rightarrow> bool" where
  "isDigit ch = (ch \<ge> CHR ''0'' \<and> ch \<le> CHR ''9'')"

definition isAlnum :: "char \<Rightarrow> bool" where
  "isAlnum ch = (isUpper ch \<or> isLower ch \<or> isDigit ch)"

definition isSpace :: "char \<Rightarrow> bool" where
  "isSpace ch = (ch = CHR 0x09 \<or> ch = CHR 0x0A \<or> ch = CHR 0x0B \<or> ch = CHR 0x0C
     \<or> ch = CHR 0x0D \<or> ch = CHR 0x20)"

text \<open>\<open>[\s_.\-]\<close> of toKebabCase, \<open>[\s\-_]\<close> of toCamelCase, \<open>[\s\-_\.]\<close> of toDotCase.\<close>

definition isKebabDelim :: "char \<Rightarrow> bool" where
  "isKebabDelim ch = (isSpace ch \<or> ch = CHR ''_'' \<or> ch = CHR ''.'' \<or> ch = CHR ''-'')"

definition isCamelDelim :: "char \<Rightarrow> bool" where
  "isCamelDelim ch = (isSpace ch \<or> ch = CHR ''-'' \<or> ch = CHR ''_'')"

definition isDotDelim :: "char \<Rightarrow> bool" where
  "isDotDelim ch = (isSpace ch \<or> ch = CHR ''-'' \<or> ch = CHR ''_'' \<or> ch = CHR ''.'')"

definition isHyphen :: "char \<Rightarrow> bool" where
  "isHyphen ch = (ch = CHR ''-'')"

subsection \<open>String methods\<close>

definition lowerChar :: "char \<Rightarrow> char" where
  "lowerChar ch = (if isUpper ch then char_of (of_char ch + (32::nat)) else ch)"

definition upperChar :: "char \<Rightarrow> char" where
  "upperChar ch = (if isLower ch then char_of (of_char ch - (32::nat)) else ch)"

definition toLowerCase :: "string \<Rightarrow> string" where
  "toLowerCase s = map lowerChar s"

definition toUpperCase :: "string \<Rightarrow> string" where
  "toUpperCase s = map upperChar s"

definition trim :: "string \<Rightarrow> string" where
  "trim s = rev (dropWhile isSpace (rev (dropWhile isSpace s)))"

text \<open>\<open>s.charAt(0)\<close> is the empty string on an empty \<open>s\<close>; \<open>s.slice(1)\<close> drops one character.\<close>

definition charAt0 :: "string \<Rightarrow> string" where
  "charAt0 s = take 1 s"

definition slice1 :: "'a list \<Rightarrow> 'a list" where
  "slice1 s = drop 1 s"

fun join :: "string \<Rightarrow> string list \<Rightarrow> string" where
  "join sep [] = []"
| "join sep [p] = p"
| "join sep (p # q # ps) = p @ sep @ join sep (q # ps)"

subsection \<open>Regular expressions\<close>

text \<open>
  A regular expression is modelled by its match attempt at one position: given the index
  of the position (for \<open>^\<close>) and the input from there on, the length of the match that
  starts there, if any.
\<close>

type_synonym regex = "nat \<Rightarrow> string \<Rightarrow> nat option"

text \<open>\<open>/([a-z])([A-Z])/\<close>\<close>

definition re_lowerUpper :: regex where
  "re_lowerUpper pos s =
     (case s of a # b # _ \<Rightarrow> if isLower a \<and> isUpper b then Some 2 else None | _ \<Rightarrow> None)"

text \<open>\<open>/[C]+/\<close> for a character class \<open>C\<close>: the longest run of \<open>C\<close>, one character at least.\<close>

definition re_run :: "(char \<Rightarrow> bool) \<Rightarrow> regex" where
  "re_run C pos s = (let n = length (takeWhile C s) in if 0 < n then Some n else None)"

text \<open>\<open>/^-+|-+$/\<close>: hyphens at the start of the input, or hyphens up to its end.\<close>

definition re_edgeHyphens :: regex where
  "re_edgeHyphens pos s =
     (let n = length (takeWhile isHyphen s)
      in if pos = 0 \<and> 0 < n then Some n
         else if 0 < n \<and> n = length s then Some n
         else None)"

text \<open>\<open>/[C]/\<close>\<close>

definition re_class :: "(char \<Rightarrow> bool) \<Rightarrow> regex" where
  "re_class C pos s = (case s of c # _ \<Rightarrow> if C c then Some 1 else None | [] \<Rightarrow> None)"

text \<open>\<open>/^[a-z][A-Za-z0-9]*$/\<close>\<close>

definition re_camelToken :: regex where
  "re_camelToken pos s =
     (case s of
        c # cs \<Rightarrow> if pos = 0 \<and> isLower c \<and> list_all isAlnum cs then Some (length s) else None
      | [] \<Rightarrow> None)"

text \<open>
  \<open>str.replace(re, f)\<close> for a global \<open>re\<close>: the matches are searched from left to right,
  each search starting where the previous match ended; \<open>f\<close> gives the replacement of the
  matched text. After an empty match the search moves one character on.
\<close>

fun replace_g :: "regex \<Rightarrow> (string \<Rightarrow> string) \<Rightarrow> nat \<Rightarrow> string \<Rightarrow> string" where
  "replace_g re f pos [] = (case re pos [] of None \<Rightarrow> [] | Some n \<Rightarrow> f [])"
| "replace_g re f pos (c # cs) =
     (case re pos (c # cs) of
        None \<Rightarrow> c # replace_g re f (Suc pos) cs
      | Some n \<Rightarrow>
          if n = 0 then f [] @ c # replace_g re f (Suc pos) cs
          else f (take n (c # cs)) @ replace_g re f (pos + n) (drop n (c # cs)))"

definition replace :: "string \<Rightarrow> regex \<Rightarrow> (string \<Rightarrow> string) \<Rightarrow> string" where
  "replace str re f = replace_g re f 0 str"

text \<open>\<open>re.test(str)\<close>: is there a match at some position.\<close>

fun test_from :: "regex \<Rightarrow> nat \<Rightarrow> string \<Rightarrow> bool" where
  "test_from re pos [] = (case re pos [] of Some n \<Rightarrow> True | None \<Rightarrow> False)"
| "test_from re pos (c # cs) =
     (case re pos (c # cs) of Some n \<Rightarrow> True | None \<Rightarrow> test_from re (Suc pos) cs)"

definition test :: "regex \<Rightarrow> string \<Rightarrow> bool" where
  "test re str = test_from re 0 str"

text \<open>
  \<open>str.split(re)\<close>: \<open>cur\<close> is the text since the last separator. A match that is empty
  and directly follows the last separator is skipped; an empty input gives one empty
  piece unless \<open>re\<close> matches it.
\<close>

fun split_from :: "regex \<Rightarrow> nat \<Rightarrow> string \<Rightarrow> string \<Rightarrow> string list" where
  "split_from re pos cur [] = [cur]"
| "split_from re pos cur (c # cs) =
     (case re pos (c # cs) of
        None \<Rightarrow> split_from re (Suc pos) (cur @ [c]) cs
      | Some n \<Rightarrow>
          if n = 0 then
            (if cur = [] then split_from re (Suc pos) [c] cs
             else cur # split_from re (Suc pos) [c] cs)
          else cur # split_from re (pos + n) [] (drop n (c # cs)))"

definition split :: "string \<Rightarrow> regex \<Rightarrow> string list" where
  "split str re =
     (if str = [] then (case re 0 [] of Some n \<Rightarrow> [] | None \<Rightarrow> [[]])
      else split_from re 0 [] str)"

section \<open>toKebabCase\<close>

text \<open>The replacement \<open>'$1-$2'\<close> for a match of \<open>/([a-z])([A-Z])/\<close>.\<close>

definition group1_hyphen_group2 :: "string \<Rightarrow> string" where
  "group1_hyphen_group2 m = take 1 m @ ''-'' @ drop 1 m"

fun toKebabCase :: "js_value \<Rightarrow> error + string" where
  "toKebabCase JNull = Inr ''''"
| "toKebabCase JUndefined = Inr ''''"
| "toKebabCase (JString str) =
     Inr (replace
           (toLowerCase
             (replace
               (replace str re_lowerUpper group1_hyphen_group2)
               (re_run isKebabDelim) (\<lambda>m. ''-'')))
           re_edgeHyphens (\<lambda>m. ''''))"
| "toKebabCase v = Inl (TypeError (''Expected string, received '' @ typeof v))"

section \<open>toCamelCase\<close>

text \<open>
  The documented converter of \<open>refined_prompt.js\<close>. The repository also holds an
  earlier three-line \<open>toCamelCase\<close> without input checks, which the specification does
  not describe.
\<close>

fun toCamelCase :: "js_value \<Rightarrow> error + string" where
  "toCamelCase JNull = Inr ''''"
| "toCamelCase JUndefined = Inr ''''"
| "toCamelCase (JString input) =
     (let str = trim input in
      if length str = 0 then Inr ''''
      else if \<not> test (re_class isCamelDelim) str then
        (if test re_camelToken str \<and> test (re_class isUpper) str then Inr str
         else if str = toUpperCase str then Inr (toLowerCase str)
         else Inr (toLowerCase (charAt0 str) @ slice1 str))
      else
        (let tokens = filter (\<lambda>t. t \<noteq> []) (split str (re_run isCamelDelim)) in
         if length tokens = 0 then Inr ''''
         else
           (let first = toLowerCase (hd tokens);
                rest = map (\<lambda>token. toUpperCase (charAt0 token) @ toLowerCase (slice1 token))
                         (slice1 tokens)
            in Inr (concat (first # rest)))))"
| "toCamelCase v = Inl (TypeError ''toCamelCase: input must be a string, null, or undefined'')"

section \<open>toDotCase\<close>

text \<open>
  The loop of \<open>splitCamel\<close>: \<open>token[i + 1]\<close> past the end is \<open>undefined\<close>, which compares
  false with every string, so \<open>nextIsLower\<close> is false there.
\<close>

function splitCamel_loop :: "string \<Rightarrow> nat \<Rightarrow> string list \<Rightarrow> string \<Rightarrow> string list" where
  "splitCamel_loop token i parts buf =
     (if i < length token then
        (if isUpper (token ! i) \<and>
            (isLower (token ! (i - 1)) \<or>
             (isUpper (token ! (i - 1)) \<and> i + 1 < length token \<and> isLower (token ! (i + 1))))
         then splitCamel_loop token (i + 1) (parts @ [buf]) [token ! i]
         else splitCamel_loop token (i + 1) parts (buf @ [token ! i]))
      else parts @ [buf])"
  by pat_completeness auto
termination
  by (relation "measure (\<lambda>(token, i, parts, buf). length token - i)") auto

definition splitCamel :: "string \<Rightarrow> string list" where
  "splitCamel token =
     (if length token = 0 then [] else splitCamel_loop token 1 [] [token ! 0])"

fun toDotCase :: "js_value \<Rightarrow> error + string" where
  "toDotCase JNull = Inr ''''"
| "toDotCase JUndefined = Inr ''''"
| "toDotCase (JString input) =
     (let str = trim input in
      if length str = 0 then Inr ''''
      else
        (let tokens = filter (\<lambda>t. t \<noteq> []) (split str (re_run isDotDelim)) in
         if length tokens = 0 then Inr ''''
         else Inr (join ''.'' (concat (map (\<lambda>token. map toLowerCase (splitCamel token)) tokens)))))"
| "toDotCase v = Inl (TypeError ''toDotCase: input must be a string, null, or undefined'')"

section \<open>The algorithms of the specification\<close>

text \<open>
  The steps as the specification words them, written without regular expressions, to be
  compared with the converters above.
\<close>

subsection \<open>Kebab case: the four steps\<close>

text \<open>Step 1: a hyphen between every lowercase letter immediately followed by an
  uppercase letter.\<close>

fun insert_hyphens :: "string \<Rightarrow> string" where
  "insert_hyphens (a # b # cs) =
     (if isLower a \<and> isUpper b then a # CHR ''-'' # insert_hyphens (b # cs)
      else a # insert_hyphens (b # cs))"
| "insert_hyphens cs = cs"

text \<open>Step 2: every run of one or more delimiter characters becomes a single hyphen.\<close>

function collapse_delims :: "string \<Rightarrow> string" where
  "collapse_delims [] = []"
| "collapse_delims (c # cs) =
     (if isKebabDelim c then CHR ''-'' # collapse_delims (dropWhile isKebabDelim cs)
      else c # collapse_delims cs)"
  by pat_completeness auto
termination
  by (relation "measure length") (auto simp: less_Suc_eq_le length_dropWhile_le)

text \<open>Step 4: leading and trailing hyphens are stripped.\<close>

definition strip_hyphens :: "string \<Rightarrow> string" where
  "strip_hyphens s = rev (dropWhile isHyphen (rev (dropWhile isHyphen s)))"

definition kebab_reference :: "string \<Rightarrow> string" where
  "kebab_reference s = strip_hyphens (toLowerCase (collapse_delims (insert_hyphens s)))"

subsection \<open>Tokens\<close>

text \<open>Splitting on runs of delimiter characters, empty tokens discarded: the tokens are
  the maximal delimiter-free pieces of the input, from left to right.\<close>

function tokenize :: "(char \<Rightarrow> bool) \<Rightarrow> string \<Rightarrow> string list" where
  "tokenize D s =
     (case dropWhile D s of
        [] \<Rightarrow> []
      | c # cs \<Rightarrow> (c # takeWhile (\<lambda>x. \<not> D x) cs) # tokenize D (dropWhile (\<lambda>x. \<not> D x) cs))"
  by pat_completeness auto
termination
proof (relation "measure (\<lambda>(D, s). length s)")
  show "wf (measure (\<lambda>(D, s). length s))" by simp
next
  fix D :: "char \<Rightarrow> bool" and s :: string and c cs
  assume eq: "dropWhile D s = c # cs"
  have "length (dropWhile (\<lambda>x. \<not> D x) cs) \<le> length cs"
    by (rule length_dropWhile_le)
  also have "length cs < length (dropWhile D s)"
    by (simp add: eq)
  also have "\<dots> \<le> length s"
    by (rule length_dropWhile_le)
  finally show "((D, dropWhile (\<lambda>x. \<not> D x) cs), (D, s)) \<in> measure (\<lambda>(D, s). length s)"
    by simp
qed

subsection \<open>Camel case\<close>

text \<open>A token after the first: its first character uppercased, the remainder lowercased.\<close>

definition capitalize :: "string \<Rightarrow> string" where
  "capitalize token = toUpperCase (take 1 token) @ toLowerCase (drop 1 token)"

definition camel_of_tokens :: "string list \<Rightarrow> string" where
  "camel_of_tokens ts =
     (case ts of [] \<Rightarrow> [] | t # rest \<Rightarrow> toLowerCase t @ concat (map capitalize rest))"

text \<open>The single-token heuristics.\<close>

definition looks_camel :: "string \<Rightarrow> bool" where
  "looks_camel token =
     (case token of [] \<Rightarrow> False
      | c # cs \<Rightarrow> isLower c \<and> list_all isAlnum token \<and> list_ex isUpper token)"

definition camel_of_single :: "string \<Rightarrow> string" where
  "camel_of_single token =
     (if looks_camel token then token
      else if \<not> list_ex isLower token then toLowerCase token
      else (case token of [] \<Rightarrow> [] | c # cs \<Rightarrow> lowerChar c # cs))"

subsection \<open>Dot case: the boundaries inside a token\<close>

text \<open>Position \<open>i\<close> starts a new part: the character there is uppercase, and the previous
  one is lowercase, or the previous one is uppercase and the next one is lowercase.\<close>

definition isBoundary :: "string \<Rightarrow> nat \<Rightarrow> bool" where
  "isBoundary token i =
     (0 < i \<and> i < length token \<and> isUpper (token ! i) \<and>
      (isLower (token ! (i - 1)) \<or>
       (isUpper (token ! (i - 1)) \<and> i + 1 < length token \<and> isLower (token ! (i + 1)))))"

text \<open>The positions of the input at which the parts of a split start, the first at \<open>k\<close>.\<close>

fun part_starts :: "nat \<Rightarrow> string list \<Rightarrow> nat list" where
  "part_starts k [] = []"
| "part_starts k (p # ps) = k # part_starts (k + length p) ps"

definition dot_reference :: "string \<Rightarrow> string" where
  "dot_reference s =
     join ''.'' (map toLowerCase (concat (map splitCamel (tokenize isDotDelim (trim s)))))"

subsection \<open>Normal forms of the outputs\<close>

text \<open>A string in which every kebab delimiter is a hyphen that is followed by a
  character that is no delimiter, or by the end of the string.\<close>

fun collapsed :: "string \<Rightarrow> bool" where
  "collapsed [] = True"
| "collapsed (c # cs) =
     ((if isKebabDelim c
       then c = CHR ''-'' \<and> (case cs of [] \<Rightarrow> True | d # ds \<Rightarrow> \<not> isKebabDelim d)
       else True) \<and> collapsed cs)"

text \<open>A part of a dot-case output: non-empty, without uppercase letters and without
  delimiters.\<close>

definition dot_word :: "string \<Rightarrow> bool" where
  "dot_word p = (p \<noteq> [] \<and> list_all (\<lambda>c. \<not> isUpper c \<and> \<not> isDotDelim c) p)"

section \<open>Characters\<close>

lemma isUpper_code: "isUpper c \<longleftrightarrow> 65 \<le> (of_char c :: nat) \<and> (of_char c :: nat) \<le> 90"
  by (simp add: isUpper_def less_eq_char_def)

lemma isLower_code: "isLower c \<longleftrightarrow> 97 \<le> (of_char c :: nat) \<and> (of_char c :: nat) \<le> 122"
  by (simp add: isLower_def less_eq_char_def)

lemma isDigit_code: "isDigit c \<longleftrightarrow> 48 \<le> (of_char c :: nat) \<and> (of_char c :: nat) \<le> 57"
  by (simp add: isDigit_def less_eq_char_def)

lemma upper_not_lower: "isUpper c \<Longrightarrow> \<not> isLower c"
  by (simp add: isUpper_code isLower_code)

lemma of_char_lowerChar: "isUpper c \<Longrightarrow> (of_char (lowerChar c) :: nat) = of_char c + 32"
  by (simp add: lowerChar_def isUpper_code)

lemma of_char_upperChar: "isLower c \<Longrightarrow> (of_char (upperChar c) :: nat) = of_char c - 32"
proof -
  assume l: "isLower c"
  then have "(of_char c :: nat) - 32 < 256" unfolding isLower_code by linarith
  then show ?thesis using l by (simp add: upperChar_def)
qed

lemma lowerChar_not_upper: "\<not> isUpper (lowerChar c)"
proof (cases "isUpper c")
  case True
  then show ?thesis using of_char_lowerChar[OF True] by (simp add: isUpper_code)
next
  case False
  then show ?thesis by (simp add: lowerChar_def)
qed

lemma lowerChar_idem: "lowerChar (lowerChar c) = lowerChar c"
  using lowerChar_not_upper[of c] by (simp add: lowerChar_def[of "lowerChar c"])

lemma char_eq_code: "c = d \<longleftrightarrow> (of_char c :: nat) = of_char d"
  by simp

lemma isSpace_code: "isSpace c \<longleftrightarrow> (of_char c :: nat) \<in> {9, 10, 11, 12, 13, 32}"
  unfolding isSpace_def char_eq_code[of c] by simp

lemma isKebabDelim_code:
  "isKebabDelim c \<longleftrightarrow> (of_char c :: nat) \<in> {9, 10, 11, 12, 13, 32, 95, 46, 45}"
  unfolding isKebabDelim_def isSpace_code char_eq_code[of c] by simp

lemma isCamelDelim_code:
  "isCamelDelim c \<longleftrightarrow> (of_char c :: nat) \<in> {9, 10, 11, 12, 13, 32, 45, 95}"
  unfolding isCamelDelim_def isSpace_code char_eq_code[of c] by simp

lemma isDotDelim_code:
  "isDotDelim c \<longleftrightarrow> (of_char c :: nat) \<in> {9, 10, 11, 12, 13, 32, 45, 95, 46}"
  unfolding isDotDelim_def isSpace_code char_eq_code[of c] by simp

lemma isHyphen_code: "isHyphen c \<longleftrightarrow> (of_char c :: nat) = 45"
  unfolding isHyphen_def char_eq_code[of c] by simp

lemma of_char_lowerChar_cases:
  "(of_char (lowerChar c) :: nat) = (if isUpper c then of_char c + 32 else of_char c)"
  by (simp add: of_char_lowerChar) (simp add: lowerChar_def)

lemma isKebabDelim_lowerChar: "isKebabDelim (lowerChar c) = isKebabDelim c"
  by (auto simp: isKebabDelim_code of_char_lowerChar_cases isUpper_code)

lemma isDotDelim_lowerChar: "isDotDelim (lowerChar c) = isDotDelim c"
  by (auto simp: isDotDelim_code of_char_lowerChar_cases isUpper_code)

lemma isHyphen_lowerChar: "isHyphen (lowerChar c) = isHyphen c"
  by (auto simp: isHyphen_code of_char_lowerChar_cases isUpper_code)

lemma ascii_lowerChar: "c \<le> CHR 0x7F \<Longrightarrow> lowerChar c \<le> CHR 0x7F"
  by (auto simp: less_eq_char_def of_char_lowerChar_cases isUpper_code)

section \<open>Lists\<close>

lemma takeWhile_all: "length (takeWhile P xs) = length xs \<longleftrightarrow> list_all P xs"
  by (induction xs) auto

lemma rstrip_Cons:
  "rev (dropWhile P (rev (c # cs))) =
     (if list_all P (c # cs) then [] else c # rev (dropWhile P (rev cs)))"
proof (cases "list_all P cs")
  case True
  then have "dropWhile P (rev cs) = []" by (simp add: list_all_iff)
  then show ?thesis using True by (simp add: dropWhile_append)
next
  case False
  then have "dropWhile P (rev cs) \<noteq> []" by (simp add: list_all_iff)
  then show ?thesis using False by (simp add: dropWhile_append)
qed

lemma list_all_dropWhile: "list_all P xs \<Longrightarrow> list_all P (dropWhile Q xs)"
  by (induction xs) simp_all

lemma list_all_strip: "list_all P xs \<Longrightarrow> list_all P (rev (dropWhile Q (rev (dropWhile R xs))))"
proof -
  assume "list_all P xs"
  then have "list_all P (rev (dropWhile R xs))"
    using list_all_dropWhile[of P xs R] by simp
  then have "list_all P (dropWhile Q (rev (dropWhile R xs)))"
    by (rule list_all_dropWhile)
  then show ?thesis by simp
qed

lemma dropWhile_head: "dropWhile P xs = y # ys \<Longrightarrow> \<not> P y"
  by (induction xs) (auto split: if_splits)

section \<open>toKebabCase and the four steps\<close>

lemma re_lowerUpper_simps:
  "re_lowerUpper pos [] = None"
  "re_lowerUpper pos [c] = None"
  "re_lowerUpper pos (a # b # cs) = (if isLower a \<and> isUpper b then Some 2 else None)"
  by (simp_all add: re_lowerUpper_def)

lemma replace_lowerUpper:
  "replace_g re_lowerUpper group1_hyphen_group2 pos s = insert_hyphens s"
proof (induction s arbitrary: pos rule: insert_hyphens.induct)
  case (1 a b cs)
  let ?go = "replace_g re_lowerUpper group1_hyphen_group2"
  show ?case
  proof (cases "isLower a \<and> isUpper b")
    case True
    then have nb: "\<not> isLower b" by (simp add: upper_not_lower)
    have "re_lowerUpper (Suc pos) (b # cs) = None"
      using nb by (cases cs) (simp_all add: re_lowerUpper_simps)
    then have step: "?go (Suc pos) (b # cs) = b # ?go (Suc (Suc pos)) cs"
      by simp
    have "?go pos (a # b # cs) = a # CHR ''-'' # b # ?go (Suc (Suc pos)) cs"
      using True by (subst replace_g.simps) (simp add: re_lowerUpper_simps group1_hyphen_group2_def)
    also have "\<dots> = a # CHR ''-'' # ?go (Suc pos) (b # cs)"
      by (simp only: step)
    also have "\<dots> = a # CHR ''-'' # insert_hyphens (b # cs)"
      by (simp only: 1(1)[OF True])
    finally show ?thesis using True by simp
  next
    case False
    have "?go pos (a # b # cs) = a # ?go (Suc pos) (b # cs)"
      by (subst replace_g.simps) (simp only: re_lowerUpper_simps False if_False option.case)
    also have "\<dots> = a # insert_hyphens (b # cs)"
      by (simp only: 1(2)[OF False])
    finally show ?thesis using False by simp
  qed
qed (simp_all add: re_lowerUpper_simps)

lemma replace_run_collapse:
  "replace_g (re_run isKebabDelim) (\<lambda>m. ''-'') pos s = collapse_delims s"
proof (induction s arbitrary: pos rule: collapse_delims.induct)
  case 1
  show ?case by (simp add: re_run_def)
next
  case (2 c cs)
  show ?case
  proof (cases "isKebabDelim c")
    case True
    have d: "drop (length (takeWhile isKebabDelim cs)) cs = dropWhile isKebabDelim cs"
      by (simp add: dropWhile_eq_drop)
    show ?thesis using True 2(1)[OF True] by (simp add: re_run_def d)
  next
    case False
    then show ?thesis using 2(2)[OF False] by (simp add: re_run_def)
  qed
qed

lemma replace_edge_inner:
  "0 < pos \<Longrightarrow> replace_g re_edgeHyphens (\<lambda>m. []) pos s = rev (dropWhile isHyphen (rev s))"
proof (induction s arbitrary: pos)
  case Nil
  then show ?case by (simp add: re_edgeHyphens_def)
next
  case (Cons c cs)
  show ?case
  proof (cases "list_all isHyphen (c # cs)")
    case True
    then have n: "length (takeWhile isHyphen (c # cs)) = length (c # cs)"
      by (simp only: takeWhile_all)
    have "re_edgeHyphens pos (c # cs) = Some (length (c # cs))"
      unfolding re_edgeHyphens_def n using Cons.prems by simp
    then have "replace_g re_edgeHyphens (\<lambda>m. []) pos (c # cs) = []"
      by (simp add: re_edgeHyphens_def)
    then show ?thesis using True by (simp only: rstrip_Cons if_True)
  next
    case False
    then have n: "length (takeWhile isHyphen (c # cs)) \<noteq> length (c # cs)"
      by (simp only: takeWhile_all) simp
    have "re_edgeHyphens pos (c # cs) = None"
      unfolding re_edgeHyphens_def using n Cons.prems by (simp add: Let_def)
    then have "replace_g re_edgeHyphens (\<lambda>m. []) pos (c # cs)
        = c # replace_g re_edgeHyphens (\<lambda>m. []) (Suc pos) cs"
      by simp
    then show ?thesis using False Cons.IH[of "Suc pos"] by (simp only: rstrip_Cons if_False)
  qed
qed

lemma replace_edge_strip:
  "replace_g re_edgeHyphens (\<lambda>m. []) 0 s = strip_hyphens s"
proof (cases s)
  case Nil
  then show ?thesis by (simp add: re_edgeHyphens_def strip_hyphens_def)
next
  case (Cons c cs)
  show ?thesis
  proof (cases "isHyphen c")
    case True
    let ?n = "length (takeWhile isHyphen (c # cs))"
    have pos: "0 < ?n" using True by simp
    have m: "re_edgeHyphens 0 (c # cs) = Some ?n"
      unfolding re_edgeHyphens_def using pos by (simp add: Let_def)
    have d: "drop ?n (c # cs) = dropWhile isHyphen (c # cs)"
      by (simp only: dropWhile_eq_drop)
    have "replace_g re_edgeHyphens (\<lambda>m. []) 0 (c # cs)
        = replace_g re_edgeHyphens (\<lambda>m. []) (0 + ?n) (drop ?n (c # cs))"
      using m pos by (simp del: takeWhile.simps drop_Suc_Cons)
    also have "\<dots> = rev (dropWhile isHyphen (rev (dropWhile isHyphen (c # cs))))"
      unfolding d using pos by (intro replace_edge_inner) simp
    finally show ?thesis using Cons by (simp add: strip_hyphens_def)
  next
    case False
    then have m: "re_edgeHyphens 0 (c # cs) = None"
      by (simp add: re_edgeHyphens_def)
    have nall: "\<not> list_all isHyphen (c # cs)" using False by simp
    have "replace_g re_edgeHyphens (\<lambda>m. []) 0 (c # cs)
        = c # replace_g re_edgeHyphens (\<lambda>m. []) (Suc 0) cs"
      using m by simp
    also have "\<dots> = c # rev (dropWhile isHyphen (rev cs))"
      by (simp add: replace_edge_inner)
    also have "\<dots> = rev (dropWhile isHyphen (rev (c # cs)))"
      using nall by (simp only: rstrip_Cons if_False)
    finally show ?thesis using Cons False by (simp add: strip_hyphens_def)
  qed
qed

lemma toKebabCase_reference: "toKebabCase (JString s) = Inr (kebab_reference s)"
  by (simp add: replace_def kebab_reference_def replace_lowerUpper replace_run_collapse
      replace_edge_strip)

text \<open>
  C1. On every ASCII string, toKebabCase returns what the four steps of the specification
  give in this order: a hyphen between each lowercase letter and the uppercase letter
  right after it, every run of whitespace, underscores, periods and hyphens replaced by
  one hyphen, the whole string lowercased, the leading and trailing hyphens stripped. So
  \<open>HelloWorld\<close> and \<open>hello...world\<close> both give \<open>hello-world\<close>.
\<close>

theorem toKebabCase_four_steps:
  "ascii s \<Longrightarrow>
     toKebabCase (JString s) =
       Inr (strip_hyphens (toLowerCase (collapse_delims (insert_hyphens s)))) \<and>
     toKebabCase (JString ''HelloWorld'') = Inr ''hello-world'' \<and>
     toKebabCase (JString ''hello...world'') = Inr ''hello-world''"
proof (intro conjI)
  show "toKebabCase (JString s) =
      Inr (strip_hyphens (toLowerCase (collapse_delims (insert_hyphens s))))"
    using toKebabCase_reference[of s] by (simp only: kebab_reference_def)
  show "toKebabCase (JString ''HelloWorld'') = Inr ''hello-world''"
    by code_simp
  show "toKebabCase (JString ''hello...world'') = Inr ''hello-world''"
    by code_simp
qed

theorem toKebabCase_four_steps_witness:
  "ascii ''-helloWorld  Test_'' \<and>
   toKebabCase (JString ''-helloWorld  Test_'') = Inr ''hello-world-test'' \<and>
   strip_hyphens (toLowerCase (collapse_delims (insert_hyphens ''-helloWorld  Test_'')))
     = ''hello-world-test''"
proof -
  have a: "ascii ''-helloWorld  Test_''"
    by code_simp
  have r: "strip_hyphens (toLowerCase (collapse_delims (insert_hyphens ''-helloWorld  Test_'')))
      = ''hello-world-test''"
    by code_simp
  have "toKebabCase (JString ''-helloWorld  Test_'') =
      Inr (strip_hyphens (toLowerCase (collapse_delims (insert_hyphens ''-helloWorld  Test_''))))"
    using toKebabCase_four_steps[OF a] by (rule conjunct1)
  then have "toKebabCase (JString ''-helloWorld  Test_'') = Inr ''hello-world-test''"
    by (simp only: r)
  with a r show ?thesis
    by (intro conjI)
qed

section \<open>toKebabCase applied twice\<close>

lemma insert_hyphens_no_upper:
  "list_all (\<lambda>c. \<not> isUpper c) t \<Longrightarrow> insert_hyphens t = t"
  by (induction t rule: insert_hyphens.induct) simp_all

lemma toLowerCase_no_upper:
  "list_all (\<lambda>c. \<not> isUpper c) t \<Longrightarrow> toLowerCase t = t"
  by (induction t) (simp_all add: toLowerCase_def lowerChar_def)

lemma no_upper_toLowerCase: "list_all (\<lambda>c. \<not> isUpper c) (toLowerCase t)"
  by (induction t) (simp_all add: toLowerCase_def lowerChar_not_upper)

lemma collapse_delims_head:
  "\<not> isKebabDelim d \<Longrightarrow> collapse_delims (d # ds) = d # collapse_delims ds"
  by simp

lemma collapsed_collapse_delims: "collapsed (collapse_delims s)"
proof (induction s rule: collapse_delims.induct)
  case 1
  show ?case by simp
next
  case (2 c cs)
  show ?case
  proof (cases "isKebabDelim c")
    case True
    define r where "r = dropWhile isKebabDelim cs"
    have h: "isKebabDelim (CHR ''-'')" by (simp add: isKebabDelim_def)
    have eq: "collapse_delims (c # cs) = CHR ''-'' # collapse_delims r"
      using True by (simp add: r_def)
    have ih: "collapsed (collapse_delims r)"
      using 2(1)[OF True] by (simp only: r_def)
    show ?thesis
    proof (cases r)
      case Nil
      then show ?thesis unfolding eq using h by simp
    next
      case (Cons y ys)
      then have "\<not> isKebabDelim y" unfolding r_def by (rule dropWhile_head)
      then show ?thesis unfolding eq using h Cons ih by simp
    qed
  next
    case False
    then show ?thesis using 2(2)[OF False] by simp
  qed
qed

lemma collapsed_fixed: "collapsed t \<Longrightarrow> collapse_delims t = t"
proof (induction t rule: collapse_delims.induct)
  case 1
  show ?case by simp
next
  case (2 c cs)
  show ?case
  proof (cases "isKebabDelim c")
    case True
    with 2(3) have c: "c = CHR ''-''" and tl: "collapsed cs" by simp_all
    from 2(3) True have d: "dropWhile isKebabDelim cs = cs"
      by (cases cs) simp_all
    show ?thesis using True c tl d 2(1)[OF True] by simp
  next
    case False
    with 2(3) have "collapsed cs" by simp
    then show ?thesis using False 2(2)[OF False] by simp
  qed
qed

lemma collapsed_toLowerCase: "collapsed t \<Longrightarrow> collapsed (toLowerCase t)"
proof (induction t)
  case Nil
  show ?case by (simp add: toLowerCase_def)
next
  case (Cons c cs)
  have hy: "lowerChar (CHR ''-'') = CHR ''-''"
    using isHyphen_lowerChar[of "CHR ''-''"] by (simp add: isHyphen_def)
  from Cons show ?case
    by (cases cs) (auto simp: toLowerCase_def isKebabDelim_lowerChar hy)
qed

lemma collapsed_suffix: "collapsed (xs @ ys) \<Longrightarrow> collapsed ys"
  by (induction xs) simp_all

lemma collapsed_prefix: "collapsed (xs @ ys) \<Longrightarrow> collapsed xs"
proof (induction xs)
  case Nil
  show ?case by simp
next
  case (Cons x xs)
  then show ?case by (cases xs) (auto split: if_splits)
qed

lemma collapsed_strip: "collapsed t \<Longrightarrow> collapsed (strip_hyphens t)"
proof -
  assume c: "collapsed t"
  let ?y = "dropWhile isHyphen t"
  have "collapsed (takeWhile isHyphen t @ ?y)" using c by simp
  then have y: "collapsed ?y" by (rule collapsed_suffix)
  have "rev (dropWhile isHyphen (rev ?y)) @ rev (takeWhile isHyphen (rev ?y)) = ?y"
    using takeWhile_dropWhile_id[of isHyphen "rev ?y"] 
    by (metis rev_append rev_rev_ident)
  then have "collapsed (rev (dropWhile isHyphen (rev ?y)) @ rev (takeWhile isHyphen (rev ?y)))"
    using y by simp
  then show ?thesis unfolding strip_hyphens_def by (rule collapsed_prefix)
qed

lemma strip_hyphens_idem: "strip_hyphens (strip_hyphens t) = strip_hyphens t"
proof -
  define y where "y = dropWhile isHyphen t"
  define r where "r = rev (dropWhile isHyphen (rev y))"
  have front: "dropWhile isHyphen r = r"
  proof (cases y)
    case Nil
    then show ?thesis by (simp add: r_def)
  next
    case (Cons c cs)
    then have nc: "\<not> isHyphen c" unfolding y_def by (rule dropWhile_head)
    then have "r = c # rev (dropWhile isHyphen (rev cs))"
      unfolding r_def Cons by (simp only: rstrip_Cons) simp
    then show ?thesis using nc by simp
  qed
  have rear: "rev (dropWhile isHyphen (rev r)) = r"
    by (simp add: r_def dropWhile_idem)
  have "strip_hyphens (strip_hyphens t) = rev (dropWhile isHyphen (rev (dropWhile isHyphen r)))"
    by (simp only: strip_hyphens_def r_def y_def)
  also have "\<dots> = r"
    by (simp only: front rear)
  finally show ?thesis by (simp only: strip_hyphens_def r_def y_def)
qed

lemma kebab_reference_fixed: "kebab_reference (kebab_reference s) = kebab_reference s"
proof -
  let ?z = "toLowerCase (collapse_delims (insert_hyphens s))"
  let ?t = "strip_hyphens ?z"
  have nu: "list_all (\<lambda>c. \<not> isUpper c) ?t"
    unfolding strip_hyphens_def by (rule list_all_strip) (rule no_upper_toLowerCase)
  have col: "collapsed ?t"
    by (intro collapsed_strip collapsed_toLowerCase collapsed_collapse_delims)
  have "kebab_reference ?t = strip_hyphens (toLowerCase (collapse_delims (insert_hyphens ?t)))"
    by (simp only: kebab_reference_def)
  also have "\<dots> = strip_hyphens (toLowerCase (collapse_delims ?t))"
    by (simp only: insert_hyphens_no_upper[OF nu])
  also have "\<dots> = strip_hyphens (toLowerCase ?t)"
    by (simp only: collapsed_fixed[OF col])
  also have "\<dots> = strip_hyphens ?t"
    by (simp only: toLowerCase_no_upper[OF nu])
  also have "\<dots> = ?t"
    by (rule strip_hyphens_idem)
  finally show ?thesis by (simp only: kebab_reference_def)
qed

lemma ascii_insert_hyphens: "ascii s \<Longrightarrow> ascii (insert_hyphens s)"
  by (induction s rule: insert_hyphens.induct) (simp_all add: ascii_def)

lemma ascii_collapse_delims: "ascii s \<Longrightarrow> ascii (collapse_delims s)"
proof (induction s rule: collapse_delims.induct)
  case 1
  show ?case by (simp add: ascii_def)
next
  case (2 c cs)
  from 2(3) have "ascii (dropWhile isKebabDelim cs)" and "ascii cs"
    by (simp_all add: ascii_def list_all_dropWhile)
  then show ?case using 2 by (simp add: ascii_def)
qed

lemma ascii_toLowerCase: "ascii s \<Longrightarrow> ascii (toLowerCase s)"
  by (induction s) (simp_all add: ascii_def toLowerCase_def ascii_lowerChar)

lemma ascii_kebab_reference: "ascii s \<Longrightarrow> ascii (kebab_reference s)"
  unfolding kebab_reference_def strip_hyphens_def ascii_def
  using ascii_toLowerCase[OF ascii_collapse_delims[OF ascii_insert_hyphens], unfolded ascii_def]
  by (intro list_all_strip) (simp add: ascii_def)

text \<open>
  C4. toKebabCase is idempotent: on an ASCII string it returns an ASCII string, and
  applied to that string it returns it unchanged.
\<close>

theorem toKebabCase_idempotent:
  "ascii s \<Longrightarrow>
     \<exists>t. toKebabCase (JString s) = Inr t \<and> ascii t \<and> toKebabCase (JString t) = Inr t"
proof -
  assume a: "ascii s"
  have "toKebabCase (JString s) = Inr (kebab_reference s)"
    by (rule toKebabCase_reference)
  moreover have "ascii (kebab_reference s)"
    using a by (rule ascii_kebab_reference)
  moreover have "toKebabCase (JString (kebab_reference s)) = Inr (kebab_reference s)"
    by (simp only: toKebabCase_reference kebab_reference_fixed)
  ultimately show ?thesis by blast
qed

theorem toKebabCase_idempotent_witness:
  "ascii ''  fooBar__BAZ.qux '' \<and>
   toKebabCase (JString ''  fooBar__BAZ.qux '') = Inr ''foo-bar-baz-qux'' \<and>
   toKebabCase (JString ''foo-bar-baz-qux'') = Inr ''foo-bar-baz-qux''"
proof -
  have a: "ascii ''  fooBar__BAZ.qux ''"
    by code_simp
  have v: "toKebabCase (JString ''  fooBar__BAZ.qux '') = Inr ''foo-bar-baz-qux''"
    by code_simp
  obtain t where t: "toKebabCase (JString ''  fooBar__BAZ.qux '') = Inr t"
      "toKebabCase (JString t) = Inr t"
    using toKebabCase_idempotent[OF a] by blast
  from t(1) v have "t = ''foo-bar-baz-qux''" by simp
  with t(2) a v show ?thesis by simp
qed

section \<open>Splitting on runs of delimiters\<close>

declare tokenize.simps [simp del]

lemma tokenize_Nil: "tokenize D [] = []"
  by (simp add: tokenize.simps[of D "[]"])

lemma tokenize_delim: "D c \<Longrightarrow> tokenize D (c # cs) = tokenize D cs"
  by (simp add: tokenize.simps[of D "c # cs"] tokenize.simps[of D cs])

lemma tokenize_word:
  "\<not> D c \<Longrightarrow> tokenize D (c # cs) =
     (c # takeWhile (\<lambda>x. \<not> D x) cs) # tokenize D (dropWhile (\<lambda>x. \<not> D x) cs)"
  by (simp add: tokenize.simps[of D "c # cs"])

lemma tokenize_dropWhile: "tokenize D (dropWhile D s) = tokenize D s"
  by (induction s) (simp_all add: tokenize_delim)

lemma tokenize_append_word:
  assumes "list_all (\<lambda>x. \<not> D x) cur" and "cur \<noteq> []" and "s = [] \<or> D (hd s)"
  shows "tokenize D (cur @ s) = cur # tokenize D s"
proof -
  obtain a as where cur: "cur = a # as" using assms(2) by (cases cur) auto
  have na: "\<not> D a" and as: "list_all (\<lambda>x. \<not> D x) as" using assms(1) cur by simp_all
  have base: "takeWhile (\<lambda>x. \<not> D x) s = []" "dropWhile (\<lambda>x. \<not> D x) s = s"
    using assms(3) by (cases s; simp)+
  have tw: "takeWhile (\<lambda>x. \<not> D x) (as @ s) = as"
    using as by (induction as) (simp_all add: base)
  have dw: "dropWhile (\<lambda>x. \<not> D x) (as @ s) = s"
    using as by (induction as) (simp_all add: base)
  show ?thesis
    unfolding cur using na by (simp add: tokenize_word tw dw)
qed

lemma re_run_Cons:
  "re_run C pos (c # cs) = (if C c then Some (Suc (length (takeWhile C cs))) else None)"
  by (simp add: re_run_def)

lemma re_run_Nil: "re_run C pos [] = None"
  by (simp add: re_run_def)

lemma split_from_tokenize:
  "list_all (\<lambda>x. \<not> C x) cur \<Longrightarrow>
     filter (\<lambda>t. t \<noteq> []) (split_from (re_run C) pos cur s) = tokenize C (cur @ s)"
proof (induction "length s" arbitrary: s pos cur rule: less_induct)
  case less
  show ?case
  proof (cases s)
    case Nil
    show ?thesis
    proof (cases "cur = []")
      case True
      then show ?thesis using Nil by (simp add: tokenize_Nil)
    next
      case False
      then show ?thesis
        using Nil tokenize_append_word[OF less.prems False, of "[]"] by (simp add: tokenize_Nil)
    qed
  next
    case (Cons c cs)
    show ?thesis
    proof (cases "C c")
      case False
      have "filter (\<lambda>t. t \<noteq> []) (split_from (re_run C) (Suc pos) (cur @ [c]) cs)
          = tokenize C ((cur @ [c]) @ cs)"
        using less.prems False Cons by (intro less.hyps) simp_all
      then show ?thesis using False Cons by (simp add: re_run_Cons)
    next
      case True
      let ?n = "Suc (length (takeWhile C cs))"
      have d: "drop (length (takeWhile C cs)) cs = dropWhile C cs"
        by (simp add: dropWhile_eq_drop)
      have len: "length (dropWhile C cs) < length s"
        using Cons length_dropWhile_le[of C cs] by simp
      have ih: "filter (\<lambda>t. t \<noteq> []) (split_from (re_run C) (pos + ?n) [] (dropWhile C cs))
          = tokenize C ([] @ dropWhile C cs)"
        using len by (intro less.hyps) simp_all
      have sp: "split_from (re_run C) pos cur (c # cs)
          = cur # split_from (re_run C) (pos + ?n) [] (dropWhile C cs)"
        using True by (simp add: re_run_Cons d)
      have tk: "tokenize C (c # cs) = tokenize C (dropWhile C cs)"
        using True by (simp add: tokenize_delim tokenize_dropWhile)
      show ?thesis
      proof (cases "cur = []")
        case True
        then show ?thesis using Cons sp ih tk by simp
      next
        case False
        have "tokenize C (cur @ c # cs) = cur # tokenize C (c # cs)"
          using \<open>C c\<close> by (intro tokenize_append_word less.prems False) simp
        then show ?thesis using False Cons sp ih tk by simp
      qed
    qed
  qed
qed

lemma split_tokenize: "filter (\<lambda>t. t \<noteq> []) (split s (re_run C)) = tokenize C s"
proof (cases s)
  case Nil
  then show ?thesis by (simp add: split_def re_run_Nil tokenize_Nil)
next
  case (Cons c cs)
  then show ?thesis
    using split_from_tokenize[of C "[]" 0 s] by (simp add: split_def)
qed

lemma tokenize_tokens:
  "list_all (\<lambda>t. t \<noteq> [] \<and> list_all (\<lambda>c. \<not> D c) t) (tokenize D s)"
proof (induction "length s" arbitrary: s rule: less_induct)
  case less
  show ?case
  proof (cases s)
    case Nil
    then show ?thesis by (simp add: tokenize_Nil)
  next
    case (Cons c cs)
    show ?thesis
    proof (cases "D c")
      case True
      then show ?thesis using Cons less.hyps[of cs] by (simp add: tokenize_delim)
    next
      case False
      have "length (dropWhile (\<lambda>x. \<not> D x) cs) < length s"
        using Cons length_dropWhile_le[of "\<lambda>x. \<not> D x" cs] by simp
      then have ih: "list_all (\<lambda>t. t \<noteq> [] \<and> list_all (\<lambda>c. \<not> D c) t)
          (tokenize D (dropWhile (\<lambda>x. \<not> D x) cs))"
        by (rule less.hyps)
      have "list_all (\<lambda>c. \<not> D c) (takeWhile (\<lambda>x. \<not> D x) cs)"
        by (induction cs) simp_all
      then show ?thesis using False Cons ih by (simp add: tokenize_word)
    qed
  qed
qed

section \<open>toCamelCase\<close>

lemma test_class: "test_from (re_class C) pos s = list_ex C s"
  by (induction s arbitrary: pos) (simp_all add: re_class_def)

lemma test_re_class: "test (re_class C) s = list_ex C s"
  by (simp only: test_def test_class)

lemma test_camelToken_inner: "0 < pos \<Longrightarrow> test_from re_camelToken pos s = False"
  by (induction s arbitrary: pos) (simp_all add: re_camelToken_def)

lemma isLower_isAlnum: "isLower c \<Longrightarrow> isAlnum c"
  by (simp add: isAlnum_def)

lemma test_camelToken:
  "test re_camelToken s = (case s of [] \<Rightarrow> False | c # cs \<Rightarrow> isLower c \<and> list_all isAlnum s)"
proof (cases s)
  case Nil
  then show ?thesis by (simp add: test_def re_camelToken_def)
next
  case (Cons c cs)
  then show ?thesis
    by (auto simp: test_def re_camelToken_def test_camelToken_inner isLower_isAlnum)
qed

lemma upperChar_fixed: "upperChar c = c \<longleftrightarrow> \<not> isLower c"
proof (cases "isLower c")
  case True
  then have "(of_char (upperChar c) :: nat) \<noteq> of_char c"
    using of_char_upperChar[OF True] unfolding isLower_code by linarith
  then show ?thesis using True by auto
next
  case False
  then show ?thesis by (simp add: upperChar_def)
qed

lemma toUpperCase_fixed: "s = toUpperCase s \<longleftrightarrow> \<not> list_ex isLower s"
proof (induction s)
  case Nil
  show ?case by (simp add: toUpperCase_def)
next
  case (Cons c cs)
  have "c = upperChar c \<longleftrightarrow> \<not> isLower c"
    using upperChar_fixed[of c] by auto
  then show ?case using Cons by (simp add: toUpperCase_def)
qed

lemma toCamelCase_single:
  assumes "trim s \<noteq> []" and "\<not> list_ex isCamelDelim (trim s)"
  shows "toCamelCase (JString s) = Inr (camel_of_single (trim s))"
proof -
  obtain c cs where t: "trim s = c # cs" using assms(1) by (cases "trim s") auto
  have ta: "test re_camelToken (c # cs) = (isLower c \<and> list_all isAlnum (c # cs))"
    by (simp add: test_camelToken)
  have tb: "test (re_class isUpper) (c # cs) = list_ex isUpper (c # cs)"
    by (rule test_re_class)
  have lc: "looks_camel (c # cs) =
      (test re_camelToken (c # cs) \<and> test (re_class isUpper) (c # cs))"
    by (simp only: ta tb) (simp add: looks_camel_def)
  have up: "(c # cs = toUpperCase (c # cs)) = (\<not> list_ex isLower (c # cs))"
    by (rule toUpperCase_fixed)
  have fst: "toLowerCase (charAt0 (c # cs)) @ slice1 (c # cs) = lowerChar c # cs"
    by (simp add: charAt0_def slice1_def toLowerCase_def)
  have nd: "\<not> test (re_class isCamelDelim) (c # cs)"
    unfolding test_re_class using assms(2)[unfolded t] .
  show ?thesis
    unfolding toCamelCase.simps Let_def t camel_of_single_def
    using nd by (simp only: lc up fst) simp
qed

lemma toCamelCase_tokens:
  assumes "list_ex isCamelDelim (trim s)"
  shows "toCamelCase (JString s) = Inr (camel_of_tokens (tokenize isCamelDelim (trim s)))"
proof -
  have ne: "trim s \<noteq> []" using assms by auto
  have d: "test (re_class isCamelDelim) (trim s)"
    using assms by (simp only: test_re_class)
  show ?thesis
  proof (cases "tokenize isCamelDelim (trim s)")
    case Nil
    then show ?thesis using ne d
      by (simp add: Let_def split_tokenize camel_of_tokens_def)
  next
    case (Cons t ts)
    then show ?thesis using ne d
      by (simp add: Let_def split_tokenize camel_of_tokens_def capitalize_def[abs_def]
          charAt0_def slice1_def)
  qed
qed

lemma trim_no_space: "list_all (\<lambda>c. \<not> isSpace c) s \<Longrightarrow> trim s = s"
proof -
  assume a: "list_all (\<lambda>c. \<not> isSpace c) s"
  have front: "dropWhile isSpace s = s"
    using a by (cases s) simp_all
  have "list_all (\<lambda>c. \<not> isSpace c) (rev s)"
    using a by simp
  then have "dropWhile isSpace (rev s) = rev s"
    by (cases "rev s") simp_all
  then show ?thesis by (simp add: trim_def front)
qed

text \<open>
  C2. When the trimmed ASCII input contains whitespace, a hyphen or an underscore,
  toCamelCase splits it on the runs of these characters, empty tokens discarded (every
  token is non-empty and free of them), lowercases the first token, gives every later
  token its first character uppercased and its remainder lowercased, and concatenates
  them. So \<open>kebab-case-example\<close> gives \<open>kebabCaseExample\<close> and \<open>$pecial-char_name\<close>
  gives \<open>$pecialCharName\<close>.
\<close>

theorem toCamelCase_delimiter_path:
  "ascii s \<Longrightarrow> list_ex isCamelDelim (trim s) \<Longrightarrow>
     toCamelCase (JString s) =
       Inr (case tokenize isCamelDelim (trim s) of
              [] \<Rightarrow> []
            | t # ts \<Rightarrow> toLowerCase t @ concat (map capitalize ts)) \<and>
     list_all (\<lambda>t. t \<noteq> [] \<and> list_all (\<lambda>c. \<not> isCamelDelim c) t)
       (tokenize isCamelDelim (trim s)) \<and>
     toCamelCase (JString ''kebab-case-example'') = Inr ''kebabCaseExample'' \<and>
     toCamelCase (JString ''$pecial-char_name'') = Inr ''$pecialCharName''"
proof (intro conjI)
  assume "list_ex isCamelDelim (trim s)"
  then show "toCamelCase (JString s) =
      Inr (case tokenize isCamelDelim (trim s) of
             [] \<Rightarrow> []
           | t # ts \<Rightarrow> toLowerCase t @ concat (map capitalize ts))"
    by (simp only: toCamelCase_tokens camel_of_tokens_def)
  show "list_all (\<lambda>t. t \<noteq> [] \<and> list_all (\<lambda>c. \<not> isCamelDelim c) t)
      (tokenize isCamelDelim (trim s))"
    by (rule tokenize_tokens)
  show "toCamelCase (JString ''kebab-case-example'') = Inr ''kebabCaseExample''"
    by code_simp
  show "toCamelCase (JString ''$pecial-char_name'') = Inr ''$pecialCharName''"
    by code_simp
qed

theorem toCamelCase_delimiter_path_witness:
  "ascii ''  foo--BAR_baz qUX '' \<and> list_ex isCamelDelim (trim ''  foo--BAR_baz qUX '') \<and>
   tokenize isCamelDelim (trim ''  foo--BAR_baz qUX '') = [''foo'', ''BAR'', ''baz'', ''qUX''] \<and>
   toCamelCase (JString ''  foo--BAR_baz qUX '') = Inr ''fooBarBazQux''"
proof -
  have a: "ascii ''  foo--BAR_baz qUX ''"
    by code_simp
  have d: "list_ex isCamelDelim (trim ''  foo--BAR_baz qUX '')"
    by code_simp
  have t: "tokenize isCamelDelim (trim ''  foo--BAR_baz qUX '') = [''foo'', ''BAR'', ''baz'', ''qUX'']"
    by code_simp
  have c: "toLowerCase ''foo'' @ concat (map capitalize [''BAR'', ''baz'', ''qUX'']) = ''fooBarBazQux''"
    by code_simp
  have "toCamelCase (JString ''  foo--BAR_baz qUX '') =
      Inr (case tokenize isCamelDelim (trim ''  foo--BAR_baz qUX '') of
             [] \<Rightarrow> []
           | t # ts \<Rightarrow> toLowerCase t @ concat (map capitalize ts))"
    using toCamelCase_delimiter_path[OF a d] by (rule conjunct1)
  then have "toCamelCase (JString ''  foo--BAR_baz qUX '') = Inr ''fooBarBazQux''"
    by (simp only: t list.case c)
  with a d t show ?thesis
    by (intro conjI)
qed

text \<open>
  C5. When the trimmed ASCII input is non-empty and contains no whitespace, hyphen or
  underscore, toCamelCase returns the trimmed token unchanged if it starts with a
  lowercase letter, consists of letters and digits only and contains an uppercase
  letter; otherwise the token lowercased if it contains no lowercase letter; otherwise
  the token with its first character lowercased and the rest unchanged. So \<open>SINGLE\<close>
  gives \<open>single\<close> and \<open>alreadyCamelCase\<close> is returned as it is.
\<close>

theorem toCamelCase_single_token:
  "ascii s \<Longrightarrow> trim s \<noteq> [] \<Longrightarrow> \<not> list_ex isCamelDelim (trim s) \<Longrightarrow>
     toCamelCase (JString s) =
       Inr (if isLower (hd (trim s)) \<and> list_all isAlnum (trim s) \<and> list_ex isUpper (trim s)
            then trim s
            else if \<not> list_ex isLower (trim s) then toLowerCase (trim s)
            else lowerChar (hd (trim s)) # tl (trim s)) \<and>
     toCamelCase (JString ''SINGLE'') = Inr ''single'' \<and>
     toCamelCase (JString ''alreadyCamelCase'') = Inr ''alreadyCamelCase''"
proof (intro conjI)
  assume ne: "trim s \<noteq> []" and nd: "\<not> list_ex isCamelDelim (trim s)"
  obtain c cs where t: "trim s = c # cs" using ne by (cases "trim s") auto
  have eq: "camel_of_single (c # cs) =
      (if isLower c \<and> list_all isAlnum (c # cs) \<and> list_ex isUpper (c # cs) then c # cs
       else if \<not> list_ex isLower (c # cs) then toLowerCase (c # cs)
       else lowerChar c # cs)"
    unfolding camel_of_single_def looks_camel_def by (simp only: list.case)
  have r: "toCamelCase (JString s) = Inr (camel_of_single (c # cs))"
    using toCamelCase_single[OF ne nd] by (simp only: t)
  show "toCamelCase (JString s) =
      Inr (if isLower (hd (trim s)) \<and> list_all isAlnum (trim s) \<and> list_ex isUpper (trim s)
           then trim s
           else if \<not> list_ex isLower (trim s) then toLowerCase (trim s)
           else lowerChar (hd (trim s)) # tl (trim s))"
    unfolding t by (simp only: r eq list.sel)
  show "toCamelCase (JString ''SINGLE'') = Inr ''single''"
    by code_simp
  show "toCamelCase (JString ''alreadyCamelCase'') = Inr ''alreadyCamelCase''"
    by code_simp
qed

theorem toCamelCase_single_token_witness:
  "ascii '' FOOBar '' \<and> trim '' FOOBar '' = ''FOOBar'' \<and>
   \<not> list_ex isCamelDelim (trim '' FOOBar '') \<and>
   toCamelCase (JString '' FOOBar '') = Inr ''fOOBar''"
proof -
  have a: "ascii '' FOOBar ''"
    by code_simp
  have t: "trim '' FOOBar '' = ''FOOBar''"
    by code_simp
  have ne: "trim '' FOOBar '' \<noteq> []"
    by (simp only: t) simp
  have nd: "\<not> list_ex isCamelDelim (trim '' FOOBar '')"
    by code_simp
  have v: "(if isLower (hd ''FOOBar'') \<and> list_all isAlnum ''FOOBar'' \<and> list_ex isUpper ''FOOBar''
            then ''FOOBar''
            else if \<not> list_ex isLower ''FOOBar'' then toLowerCase ''FOOBar''
            else lowerChar (hd ''FOOBar'') # tl ''FOOBar'') = ''fOOBar''"
    by code_simp
  have "toCamelCase (JString '' FOOBar '') =
       Inr (if isLower (hd (trim '' FOOBar '')) \<and> list_all isAlnum (trim '' FOOBar '') \<and>
               list_ex isUpper (trim '' FOOBar '')
            then trim '' FOOBar ''
            else if \<not> list_ex isLower (trim '' FOOBar '') then toLowerCase (trim '' FOOBar '')
            else lowerChar (hd (trim '' FOOBar '')) # tl (trim '' FOOBar ''))"
    using toCamelCase_single_token[OF a ne nd] by (rule conjunct1)
  then have "toCamelCase (JString '' FOOBar '') = Inr ''fOOBar''"
    by (simp only: t v)
  with a t nd show ?thesis
    by (intro conjI)
qed

lemma camel_delim_is_dot_delim: "isCamelDelim c \<Longrightarrow> isDotDelim c \<and> c \<noteq> CHR ''.''"
  unfolding isCamelDelim_code isDotDelim_code char_eq_code[of c] by auto

text \<open>
  C6. The period is no delimiter of toCamelCase. On an ASCII input whose trimmed form has
  no separator other than periods (no whitespace, hyphen or underscore) the delimiter
  test of the converter fails, and the whole trimmed input is handled as one token by
  the single-token rules: unchanged if it looks camel-cased, lowercased if it has no
  lowercase letter, otherwise only its first character lowercased. So
  \<open>dots.are.not.delimiters\<close> gives itself, \<open>Foo.Bar\<close> gives \<open>foo.Bar\<close> and \<open>FOO.BAR\<close> gives
  \<open>foo.bar\<close>.
\<close>

theorem toCamelCase_dots_single_token:
  "ascii s \<Longrightarrow> list_all (\<lambda>c. \<not> isDotDelim c \<or> c = CHR ''.'') (trim s) \<Longrightarrow>
     \<not> test (re_class isCamelDelim) (trim s) \<and>
     toCamelCase (JString s) =
       Inr (if trim s = [] then []
            else if isLower (hd (trim s)) \<and> list_all isAlnum (trim s) \<and> list_ex isUpper (trim s)
            then trim s
            else if \<not> list_ex isLower (trim s) then toLowerCase (trim s)
            else lowerChar (hd (trim s)) # tl (trim s)) \<and>
     \<not> isCamelDelim (CHR ''.'') \<and>
     toCamelCase (JString ''dots.are.not.delimiters'') = Inr ''dots.are.not.delimiters'' \<and>
     toCamelCase (JString ''Foo.Bar'') = Inr ''foo.Bar'' \<and>
     toCamelCase (JString ''FOO.BAR'') = Inr ''foo.bar''"
proof (intro conjI)
  assume a: "list_all (\<lambda>c. \<not> isDotDelim c \<or> c = CHR ''.'') (trim s)"
  have nd: "\<not> list_ex isCamelDelim (trim s)"
    using a camel_delim_is_dot_delim by (auto simp: list_all_iff list_ex_iff)
  show "\<not> test (re_class isCamelDelim) (trim s)"
    unfolding test_re_class by (rule nd)
  show "toCamelCase (JString s) =
      Inr (if trim s = [] then []
           else if isLower (hd (trim s)) \<and> list_all isAlnum (trim s) \<and> list_ex isUpper (trim s)
           then trim s
           else if \<not> list_ex isLower (trim s) then toLowerCase (trim s)
           else lowerChar (hd (trim s)) # tl (trim s))"
  proof (cases "trim s")
    case Nil
    then show ?thesis by (simp add: Let_def)
  next
    case (Cons c cs)
    then have ne: "trim s \<noteq> []" by simp
    have eq: "camel_of_single (c # cs) =
        (if isLower c \<and> list_all isAlnum (c # cs) \<and> list_ex isUpper (c # cs) then c # cs
         else if \<not> list_ex isLower (c # cs) then toLowerCase (c # cs)
         else lowerChar c # cs)"
      unfolding camel_of_single_def looks_camel_def by (simp only: list.case)
    have r: "toCamelCase (JString s) = Inr (camel_of_single (c # cs))"
      using toCamelCase_single[OF ne nd] by (simp only: Cons)
    show ?thesis
      unfolding Cons by (simp only: r eq list.sel list.distinct if_False)
  qed
  show "\<not> isCamelDelim (CHR ''.'')"
    by code_simp
  show "toCamelCase (JString ''dots.are.not.delimiters'') = Inr ''dots.are.not.delimiters''"
    by code_simp
  show "toCamelCase (JString ''Foo.Bar'') = Inr ''foo.Bar''"
    by code_simp
  show "toCamelCase (JString ''FOO.BAR'') = Inr ''foo.bar''"
    by code_simp
qed

theorem toCamelCase_dots_single_token_witness:
  "ascii '' Foo.Bar.BAZ '' \<and> trim '' Foo.Bar.BAZ '' = ''Foo.Bar.BAZ'' \<and>
   list_all (\<lambda>c. \<not> isDotDelim c \<or> c = CHR ''.'') (trim '' Foo.Bar.BAZ '') \<and>
   toCamelCase (JString '' Foo.Bar.BAZ '') = Inr ''foo.Bar.BAZ''"
proof -
  have a: "ascii '' Foo.Bar.BAZ ''"
    by code_simp
  have t: "trim '' Foo.Bar.BAZ '' = ''Foo.Bar.BAZ''"
    by code_simp
  have d: "list_all (\<lambda>c. \<not> isDotDelim c \<or> c = CHR ''.'') (trim '' Foo.Bar.BAZ '')"
    by code_simp
  have v: "(if ''Foo.Bar.BAZ'' = [] then []
            else if isLower (hd ''Foo.Bar.BAZ'') \<and> list_all isAlnum ''Foo.Bar.BAZ'' \<and>
                    list_ex isUpper ''Foo.Bar.BAZ''
            then ''Foo.Bar.BAZ''
            else if \<not> list_ex isLower ''Foo.Bar.BAZ'' then toLowerCase ''Foo.Bar.BAZ''
            else lowerChar (hd ''Foo.Bar.BAZ'') # tl ''Foo.Bar.BAZ'') = ''foo.Bar.BAZ''"
    by code_simp
  have "toCamelCase (JString '' Foo.Bar.BAZ '') =
       Inr (if trim '' Foo.Bar.BAZ '' = [] then []
            else if isLower (hd (trim '' Foo.Bar.BAZ '')) \<and>
                    list_all isAlnum (trim '' Foo.Bar.BAZ '') \<and>
                    list_ex isUpper (trim '' Foo.Bar.BAZ '')
            then trim '' Foo.Bar.BAZ ''
            else if \<not> list_ex isLower (trim '' Foo.Bar.BAZ '')
            then toLowerCase (trim '' Foo.Bar.BAZ '')
            else lowerChar (hd (trim '' Foo.Bar.BAZ '')) # tl (trim '' Foo.Bar.BAZ ''))"
    using toCamelCase_dots_single_token[OF a d] by (elim conjE)
  then have "toCamelCase (JString '' Foo.Bar.BAZ '') = Inr ''foo.Bar.BAZ''"
    by (simp only: t v)
  with a t d show ?thesis
    by (intro conjI)
qed

section \<open>toDotCase\<close>

subsection \<open>The loop of splitCamel\<close>

declare splitCamel_loop.simps [simp del]

lemma part_starts_snoc:
  "part_starts k (ps @ [b]) = part_starts k ps @ [k + length (concat ps)]"
  by (induction ps arbitrary: k) (simp_all add: add.assoc)

lemma splitCamel_loop_step:
  "i < length token \<Longrightarrow> 0 < i \<Longrightarrow>
     splitCamel_loop token i parts buf =
       (if isBoundary token i then splitCamel_loop token (i + 1) (parts @ [buf]) [token ! i]
        else splitCamel_loop token (i + 1) parts (buf @ [token ! i]))"
  by (subst splitCamel_loop.simps) (simp add: isBoundary_def)

lemma splitCamel_loop_end:
  "\<not> i < length token \<Longrightarrow> splitCamel_loop token i parts buf = parts @ [buf]"
  by (subst splitCamel_loop.simps) simp

lemma splitCamel_loop_inv:
  assumes "0 < i" and "i \<le> length token"
    and "concat parts @ buf = take i token"
    and "buf \<noteq> []" and "[] \<notin> set parts"
    and "part_starts 0 (parts @ [buf]) = 0 # filter (isBoundary token) [1..<i]"
  shows "concat (splitCamel_loop token i parts buf) = token \<and>
     [] \<notin> set (splitCamel_loop token i parts buf) \<and>
     part_starts 0 (splitCamel_loop token i parts buf) =
       0 # filter (isBoundary token) [1..<length token]"
  using assms
proof (induction token i parts buf rule: splitCamel_loop.induct)
  case (1 token i parts buf)
  show ?case
  proof (cases "i < length token")
    case False
    with 1(4) have i: "i = length token" by simp
    show ?thesis
      unfolding splitCamel_loop_end[OF False] using 1(5,6,7,8) i by simp
  next
    case True
    have tk: "take (Suc i) token = take i token @ [token ! i]"
      using True by (simp add: take_Suc_conv_app_nth)
    have len: "length (concat parts @ buf) = i"
      using 1(4,5) by simp
    have up: "[1..<i + 1] = [1..<i] @ [i]"
      using 1(3) by simp
    show ?thesis
    proof (cases "isBoundary token i")
      case b: True
      have cond: "isUpper (token ! i) \<and>
          (isLower (token ! (i - 1)) \<or>
           isUpper (token ! (i - 1)) \<and> i + 1 < length token \<and> isLower (token ! (i + 1)))"
        using b by (simp add: isBoundary_def)
      have st: "part_starts 0 ((parts @ [buf]) @ [[token ! i]]) =
          0 # filter (isBoundary token) [1..<i + 1]"
        using 1(8) len b by (simp only: part_starts_snoc[of 0 "parts @ [buf]"] up) simp
      have "concat (splitCamel_loop token (i + 1) (parts @ [buf]) [token ! i]) = token \<and>
          [] \<notin> set (splitCamel_loop token (i + 1) (parts @ [buf]) [token ! i]) \<and>
          part_starts 0 (splitCamel_loop token (i + 1) (parts @ [buf]) [token ! i]) =
            0 # filter (isBoundary token) [1..<length token]"
      proof (rule 1(1)[OF True cond])
        show "0 < i + 1" by simp
        show "i + 1 \<le> length token" using True by simp
        show "concat (parts @ [buf]) @ [token ! i] = take (i + 1) token"
          using 1(5) by (simp add: tk)
        show "[token ! i] \<noteq> []" by simp
        show "[] \<notin> set (parts @ [buf])" using 1(6,7) by simp
        show "part_starts 0 ((parts @ [buf]) @ [[token ! i]]) =
            0 # filter (isBoundary token) [1..<i + 1]" by (rule st)
      qed
      then show ?thesis
        using b by (simp add: splitCamel_loop_step[OF True 1(3)])
    next
      case nb: False
      have cond: "\<not> (isUpper (token ! i) \<and>
          (isLower (token ! (i - 1)) \<or>
           isUpper (token ! (i - 1)) \<and> i + 1 < length token \<and> isLower (token ! (i + 1))))"
        using nb True 1(3) by (simp add: isBoundary_def)
      have st: "part_starts 0 (parts @ [buf @ [token ! i]]) =
          0 # filter (isBoundary token) [1..<i + 1]"
        using 1(8) nb by (simp only: part_starts_snoc up) simp
      have "concat (splitCamel_loop token (i + 1) parts (buf @ [token ! i])) = token \<and>
          [] \<notin> set (splitCamel_loop token (i + 1) parts (buf @ [token ! i])) \<and>
          part_starts 0 (splitCamel_loop token (i + 1) parts (buf @ [token ! i])) =
            0 # filter (isBoundary token) [1..<length token]"
      proof (rule 1(2)[OF True cond])
        show "0 < i + 1" by simp
        show "i + 1 \<le> length token" using True by simp
        show "concat parts @ buf @ [token ! i] = take (i + 1) token"
          using 1(5) by (simp add: tk)
        show "buf @ [token ! i] \<noteq> []" by simp
        show "[] \<notin> set parts" by (rule 1(7))
        show "part_starts 0 (parts @ [buf @ [token ! i]]) =
            0 # filter (isBoundary token) [1..<i + 1]" by (rule st)
      qed
      then show ?thesis
        using nb by (simp add: splitCamel_loop_step[OF True 1(3)])
    qed
  qed
qed

lemma splitCamel_spec:
  assumes "token \<noteq> []"
  shows "concat (splitCamel token) = token \<and> [] \<notin> set (splitCamel token) \<and>
     part_starts 0 (splitCamel token) = 0 # filter (isBoundary token) [1..<length token]"
proof -
  obtain c cs where t: "token = c # cs" using assms by (cases token) auto
  have s: "splitCamel token = splitCamel_loop token 1 [] [token ! 0]"
    using assms by (simp add: splitCamel_def)
  show ?thesis
    unfolding s
  proof (rule splitCamel_loop_inv)
    show "(0::nat) < 1" by simp
    show "1 \<le> length token" using t by simp
    show "concat [] @ [token ! 0] = take 1 token" using t by simp
    show "[token ! 0] \<noteq> []" by simp
    show "[] \<notin> set ([] :: string list)" by simp
    show "part_starts 0 ([] @ [[token ! 0]]) = 0 # filter (isBoundary token) [1..<1]" by simp
  qed
qed

lemma splitCamel_Nil: "splitCamel [] = []"
  by (simp add: splitCamel_def)

text \<open>
  C3. Inside toDotCase a non-empty token is cut into non-empty parts that concatenate to
  the token, and a part starts at position \<open>i > 0\<close> exactly when the character at \<open>i\<close> is
  uppercase and the one before it is lowercase, or the one before it is uppercase and the
  one after it is lowercase. So \<open>FOOBar\<close> is cut into \<open>FOO\<close> and \<open>Bar\<close>, toDotCase gives
  \<open>foo.bar\<close> for it and \<open>already.camel.case\<close> for \<open>alreadyCamelCase\<close>.
\<close>

theorem splitCamel_boundaries:
  "token \<noteq> [] \<Longrightarrow>
     concat (splitCamel token) = token \<and>
     [] \<notin> set (splitCamel token) \<and>
     part_starts 0 (splitCamel token) = 0 # filter (isBoundary token) [1..<length token] \<and>
     splitCamel ''FOOBar'' = [''FOO'', ''Bar''] \<and>
     toDotCase (JString ''FOOBar'') = Inr ''foo.bar'' \<and>
     toDotCase (JString ''alreadyCamelCase'') = Inr ''already.camel.case''"
proof -
  assume ne: "token \<noteq> []"
  have e1: "splitCamel ''FOOBar'' = [''FOO'', ''Bar'']"
    by code_simp
  have e2: "toDotCase (JString ''FOOBar'') = Inr ''foo.bar''"
    by code_simp
  have e3: "toDotCase (JString ''alreadyCamelCase'') = Inr ''already.camel.case''"
    by code_simp
  from splitCamel_spec[OF ne] e1 e2 e3 show ?thesis
    by (elim conjE) (intro conjI; assumption)
qed

theorem splitCamel_boundaries_witness:
  "''parseHTTPResponse2XX'' \<noteq> [] \<and>
   filter (isBoundary ''parseHTTPResponse2XX'') [1..<length ''parseHTTPResponse2XX''] = [5, 9] \<and>
   part_starts 0 (splitCamel ''parseHTTPResponse2XX'') = [0, 5, 9] \<and>
   splitCamel ''parseHTTPResponse2XX'' = [''parse'', ''HTTP'', ''Response2XX'']"
proof -
  have ne: "''parseHTTPResponse2XX'' \<noteq> []"
    by simp
  have f: "filter (isBoundary ''parseHTTPResponse2XX'') [1..<length ''parseHTTPResponse2XX'']
      = [5, 9]"
    by code_simp
  have v: "splitCamel ''parseHTTPResponse2XX'' = [''parse'', ''HTTP'', ''Response2XX'']"
    by code_simp
  have "part_starts 0 (splitCamel ''parseHTTPResponse2XX'') =
      0 # filter (isBoundary ''parseHTTPResponse2XX'') [1..<length ''parseHTTPResponse2XX'']"
    using splitCamel_boundaries[OF ne] by (elim conjE)
  then have "part_starts 0 (splitCamel ''parseHTTPResponse2XX'') = [0, 5, 9]"
    by (simp only: f)
  with ne f v show ?thesis
    by (intro conjI)
qed

subsection \<open>Tokens, parts and the joined output\<close>

lemma splitCamel_no_boundary:
  assumes "token \<noteq> []" and "filter (isBoundary token) [1..<length token] = []"
  shows "splitCamel token = [token]"
proof -
  have sp: "concat (splitCamel token) = token"
      "part_starts 0 (splitCamel token) = [0]"
    using splitCamel_spec[OF assms(1)] assms(2) by simp_all
  show ?thesis
  proof (cases "splitCamel token")
    case Nil
    then show ?thesis using sp(2) by simp
  next
    case (Cons p ps)
    then have "ps = []" using sp(2) by (cases ps) simp_all
    then show ?thesis using Cons sp(1) by simp
  qed
qed

lemma no_upper_no_boundary:
  "list_all (\<lambda>c. \<not> isUpper c) token \<Longrightarrow> filter (isBoundary token) [1..<length token] = []"
  by (auto simp: filter_empty_conv isBoundary_def list_all_length)

lemma list_all_concat_parts: "list_all P (concat xs) = list_all (list_all P) xs"
  by (induction xs) simp_all

lemma concat_splitCamel: "concat (splitCamel t) = t"
  by (cases "t = []") (simp_all add: splitCamel_Nil splitCamel_spec)

lemma concat_concat_splitCamel: "concat (concat (map splitCamel ts)) = concat ts"
  by (induction ts) (simp_all add: concat_splitCamel)

lemma splitCamel_parts:
  assumes "list_all P t"
  shows "list_all (\<lambda>p. p \<noteq> [] \<and> list_all P p) (splitCamel t)"
proof (cases "t = []")
  case True
  then show ?thesis by (simp add: splitCamel_Nil)
next
  case False
  have "list_all (list_all P) (splitCamel t)"
    using assms by (simp only: list_all_concat_parts[symmetric] concat_splitCamel)
  moreover have "[] \<notin> set (splitCamel t)"
    using splitCamel_spec[OF False] by simp
  ultimately show ?thesis by (auto simp: list_all_iff)
qed

lemma splitCamel_tokens_parts:
  "list_all (\<lambda>t. t \<noteq> [] \<and> list_all P t) ts \<Longrightarrow>
     list_all (\<lambda>p. p \<noteq> [] \<and> list_all P p) (concat (map splitCamel ts))"
  by (induction ts) (simp_all add: splitCamel_parts)

lemma dot_word_toLowerCase:
  "p \<noteq> [] \<and> list_all (\<lambda>c. \<not> isDotDelim c) p \<Longrightarrow> dot_word (toLowerCase p)"
  by (induction p)
    (auto simp: dot_word_def toLowerCase_def lowerChar_not_upper isDotDelim_lowerChar
      list_all_iff)

lemma dot_parts_words:
  "list_all dot_word (map toLowerCase (concat (map splitCamel (tokenize isDotDelim u))))"
proof -
  have "list_all (\<lambda>p. p \<noteq> [] \<and> list_all (\<lambda>c. \<not> isDotDelim c) p)
      (concat (map splitCamel (tokenize isDotDelim u)))"
    by (intro splitCamel_tokens_parts tokenize_tokens)
  then show ?thesis
    by (simp add: list_all_iff dot_word_toLowerCase)
qed

lemma filter_takeWhile_dropWhile:
  "filter P xs = takeWhile P xs @ filter P (dropWhile P xs)"
  by (induction xs) simp_all

lemma concat_tokenize: "concat (tokenize D s) = filter (\<lambda>c. \<not> D c) s"
proof (induction "length s" arbitrary: s rule: less_induct)
  case less
  show ?case
  proof (cases s)
    case Nil
    then show ?thesis by (simp add: tokenize_Nil)
  next
    case (Cons c cs)
    show ?thesis
    proof (cases "D c")
      case True
      then show ?thesis using Cons less.hyps[of cs] by (simp add: tokenize_delim)
    next
      case False
      have "length (dropWhile (\<lambda>x. \<not> D x) cs) < length s"
        using Cons length_dropWhile_le[of "\<lambda>x. \<not> D x" cs] by simp
      then have "concat (tokenize D (dropWhile (\<lambda>x. \<not> D x) cs)) =
          filter (\<lambda>c. \<not> D c) (dropWhile (\<lambda>x. \<not> D x) cs)"
        by (rule less.hyps)
      then show ?thesis
        using False Cons filter_takeWhile_dropWhile[of "\<lambda>c. \<not> D c" cs]
        by (simp add: tokenize_word)
    qed
  qed
qed

lemma list_all_join:
  "list_all Q sep \<Longrightarrow> list_all Q (concat ps) \<Longrightarrow> list_all Q (join sep ps)"
  by (induction sep ps rule: join.induct) simp_all

lemma tokenize_word_only:
  "p \<noteq> [] \<Longrightarrow> list_all (\<lambda>c. \<not> D c) p \<Longrightarrow> tokenize D p = [p]"
  using tokenize_append_word[of D p "[]"] by (simp add: tokenize_Nil)

lemma dot_word_tokenize:
  assumes "dot_word p"
  shows "p \<noteq> []" and "list_all (\<lambda>c. \<not> isDotDelim c) p" and "list_all (\<lambda>c. \<not> isUpper c) p"
  using assms by (simp_all add: dot_word_def list_all_iff)

lemma tokenize_join:
  "list_all dot_word ps \<Longrightarrow> tokenize isDotDelim (join ''.'' ps) = ps"
proof (induction "''.''" ps rule: join.induct)
  case 1
  show ?case by (simp add: tokenize_Nil)
next
  case (2 p)
  then show ?case by (simp add: tokenize_word_only dot_word_tokenize)
next
  case (3 p q ps)
  have d: "isDotDelim (CHR ''.'')" by (simp add: isDotDelim_def)
  have w: "dot_word p" using 3(2) by simp
  have "tokenize isDotDelim (p @ ''.'' @ join ''.'' (q # ps))
      = p # tokenize isDotDelim (''.'' @ join ''.'' (q # ps))"
    using d by (intro tokenize_append_word dot_word_tokenize[OF w]) simp
  also have "\<dots> = p # tokenize isDotDelim (join ''.'' (q # ps))"
    using d by (simp add: tokenize_delim)
  also have "\<dots> = p # q # ps"
    using 3 by simp
  finally show ?case by simp
qed

lemma space_is_dot_delim: "isSpace c \<Longrightarrow> isDotDelim c"
  by (simp add: isDotDelim_def)

lemma trim_join: "list_all dot_word ps \<Longrightarrow> trim (join ''.'' ps) = join ''.'' ps"
proof -
  assume a: "list_all dot_word ps"
  have "list_all (\<lambda>c. \<not> isSpace c) (concat ps)"
    using a space_is_dot_delim
    by (auto simp: list_all_iff dot_word_def)
  moreover have "list_all (\<lambda>c. \<not> isSpace c) ''.''"
    by (simp add: isSpace_code)
  ultimately have "list_all (\<lambda>c. \<not> isSpace c) (join ''.'' ps)"
    by (intro list_all_join)
  then show ?thesis by (rule trim_no_space)
qed

lemma splitCamel_words: "list_all dot_word ps \<Longrightarrow> concat (map splitCamel ps) = ps"
proof (induction ps)
  case Nil
  show ?case by simp
next
  case (Cons p ps)
  then have w: "dot_word p" by simp
  have "splitCamel p = [p]"
    by (intro splitCamel_no_boundary no_upper_no_boundary dot_word_tokenize[OF w])
  then show ?case using Cons by simp
qed

lemma toLowerCase_words: "list_all dot_word ps \<Longrightarrow> map toLowerCase ps = ps"
  by (induction ps) (simp_all add: toLowerCase_no_upper dot_word_tokenize)

lemma dot_reference_join:
  "list_all dot_word ps \<Longrightarrow> dot_reference (join ''.'' ps) = join ''.'' ps"
  by (simp add: dot_reference_def trim_join tokenize_join splitCamel_words toLowerCase_words)

lemma toDotCase_reference: "toDotCase (JString s) = Inr (dot_reference s)"
proof (cases "trim s = []")
  case True
  then show ?thesis by (simp add: dot_reference_def tokenize_Nil)
next
  case False
  show ?thesis
  proof (cases "tokenize isDotDelim (trim s) = []")
    case True
    then show ?thesis using False by (simp add: dot_reference_def split_tokenize)
  next
    case nt: False
    have "concat (map (\<lambda>token. map toLowerCase (splitCamel token)) (tokenize isDotDelim (trim s)))
        = map toLowerCase (concat (map splitCamel (tokenize isDotDelim (trim s))))"
      by (simp add: map_concat comp_def)
    then show ?thesis using False nt by (simp add: dot_reference_def split_tokenize)
  qed
qed

lemma concat_map_toLowerCase: "concat (map toLowerCase ps) = toLowerCase (concat ps)"
  by (induction ps) (simp_all add: toLowerCase_def)

lemma ascii_dot_reference: "ascii s \<Longrightarrow> ascii (dot_reference s)"
proof -
  assume a: "ascii s"
  let ?ps = "map toLowerCase (concat (map splitCamel (tokenize isDotDelim (trim s))))"
  have t: "ascii (trim s)"
    using a unfolding ascii_def trim_def by (rule list_all_strip)
  have "concat ?ps = toLowerCase (filter (\<lambda>c. \<not> isDotDelim c) (trim s))"
    by (simp only: concat_map_toLowerCase concat_concat_splitCamel concat_tokenize)
  moreover have "ascii (toLowerCase (filter (\<lambda>c. \<not> isDotDelim c) (trim s)))"
    using t by (intro ascii_toLowerCase) (simp add: ascii_def list_all_iff)
  ultimately have "list_all (\<lambda>c. c \<le> CHR 0x7F) (concat ?ps)"
    by (simp add: ascii_def)
  moreover have "list_all (\<lambda>c. c \<le> CHR 0x7F) ''.''"
    by simp
  ultimately show ?thesis
    unfolding dot_reference_def ascii_def by (intro list_all_join)
qed

text \<open>
  C7, as a statement about the tokens alone, fails: the lowercased tokens of \<open>fooBar\<close>
  joined by dots are \<open>foobar\<close>, and toDotCase returns \<open>foo.bar\<close>, since it also cuts every
  token at its camel-case boundaries.
\<close>

theorem toDotCase_tokens_only_counterexample:
  "toDotCase (JString ''fooBar'') = Inr ''foo.bar'' \<and>
   join ''.'' (map toLowerCase (tokenize isDotDelim (trim ''fooBar''))) = ''foobar'' \<and>
   toDotCase (JString ''fooBar'') \<noteq>
     Inr (join ''.'' (map toLowerCase (tokenize isDotDelim (trim ''fooBar''))))"
proof -
  have v: "toDotCase (JString ''fooBar'') = Inr ''foo.bar''"
    by code_simp
  have l: "join ''.'' (map toLowerCase (tokenize isDotDelim (trim ''fooBar''))) = ''foobar''"
    by code_simp
  have n: "(Inr ''foo.bar'' :: error + string) \<noteq> Inr ''foobar''"
    by simp
  have "toDotCase (JString ''fooBar'') \<noteq>
      Inr (join ''.'' (map toLowerCase (tokenize isDotDelim (trim ''fooBar''))))"
    unfolding v l by (rule n)
  with v l show ?thesis
    by (intro conjI)
qed

text \<open>
  C7, with the cut at the boundaries. On an ASCII string toDotCase splits the trimmed
  input on the runs of whitespace, hyphens, underscores and dots, empty tokens
  discarded: the tokens are non-empty, free of these characters and hold the other
  characters of the input in order. It cuts every token into parts that start at the
  boundaries of the token (an uppercase character after a lowercase one, or after an
  uppercase one and before a lowercase one), lowercases every part and joins the parts
  by one dot. So \<open>foo--bar__baz\<close> gives \<open>foo.bar.baz\<close>, \<open>user_123-id\<close> gives
  \<open>user.123.id\<close>, \<open>NASA API\<close> gives \<open>nasa.api\<close>, and \<open>fooBar\<close> gives \<open>foo.bar\<close>.
\<close>

theorem toDotCase_tokens_parts_joined:
  "ascii s \<Longrightarrow>
     toDotCase (JString s) =
       Inr (join ''.'' (map toLowerCase (concat (map splitCamel (tokenize isDotDelim (trim s)))))) \<and>
     list_all (\<lambda>t. t \<noteq> [] \<and> list_all (\<lambda>c. \<not> isDotDelim c) t) (tokenize isDotDelim (trim s)) \<and>
     concat (tokenize isDotDelim (trim s)) = filter (\<lambda>c. \<not> isDotDelim c) (trim s) \<and>
     list_all
       (\<lambda>t. concat (splitCamel t) = t \<and> [] \<notin> set (splitCamel t) \<and>
            part_starts 0 (splitCamel t) = 0 # filter (isBoundary t) [1..<length t])
       (tokenize isDotDelim (trim s)) \<and>
     toDotCase (JString ''foo--bar__baz'') = Inr ''foo.bar.baz'' \<and>
     toDotCase (JString ''user_123-id'') = Inr ''user.123.id'' \<and>
     toDotCase (JString ''NASA API'') = Inr ''nasa.api'' \<and>
     toDotCase (JString ''fooBar'') = Inr ''foo.bar''"
proof (intro conjI)
  show "toDotCase (JString s) =
      Inr (join ''.'' (map toLowerCase (concat (map splitCamel (tokenize isDotDelim (trim s))))))"
    using toDotCase_reference[of s] by (simp only: dot_reference_def)
  show tk: "list_all (\<lambda>t. t \<noteq> [] \<and> list_all (\<lambda>c. \<not> isDotDelim c) t)
      (tokenize isDotDelim (trim s))"
    by (rule tokenize_tokens)
  show "concat (tokenize isDotDelim (trim s)) = filter (\<lambda>c. \<not> isDotDelim c) (trim s)"
    by (rule concat_tokenize)
  have "list_all
       (\<lambda>t. concat (splitCamel t) = t \<and> [] \<notin> set (splitCamel t) \<and>
            part_starts 0 (splitCamel t) = 0 # filter (isBoundary t) [1..<length t]) ts"
    if "list_all (\<lambda>t. t \<noteq> [] \<and> list_all (\<lambda>c. \<not> isDotDelim c) t) ts" for ts
    using that
  proof (induction ts)
    case Nil
    show ?case by simp
  next
    case (Cons t ts)
    then have "t \<noteq> []" by simp
    from splitCamel_spec[OF this] Cons show ?case by simp
  qed
  from this[OF tk] show "list_all
       (\<lambda>t. concat (splitCamel t) = t \<and> [] \<notin> set (splitCamel t) \<and>
            part_starts 0 (splitCamel t) = 0 # filter (isBoundary t) [1..<length t])
       (tokenize isDotDelim (trim s))" .
  show "toDotCase (JString ''foo--bar__baz'') = Inr ''foo.bar.baz''"
    by code_simp
  show "toDotCase (JString ''user_123-id'') = Inr ''user.123.id''"
    by code_simp
  show "toDotCase (JString ''NASA API'') = Inr ''nasa.api''"
    by code_simp
  show "toDotCase (JString ''fooBar'') = Inr ''foo.bar''"
    by code_simp
qed

theorem toDotCase_tokens_parts_joined_witness:
  "ascii ''  fooBar--NASA_APIKey.v2 '' \<and>
   tokenize isDotDelim (trim ''  fooBar--NASA_APIKey.v2 '') =
     [''fooBar'', ''NASA'', ''APIKey'', ''v2''] \<and>
   concat (map splitCamel [''fooBar'', ''NASA'', ''APIKey'', ''v2'']) =
     [''foo'', ''Bar'', ''NASA'', ''API'', ''Key'', ''v2''] \<and>
   toDotCase (JString ''  fooBar--NASA_APIKey.v2 '') = Inr ''foo.bar.nasa.api.key.v2''"
proof -
  have a: "ascii ''  fooBar--NASA_APIKey.v2 ''"
    by code_simp
  have t: "tokenize isDotDelim (trim ''  fooBar--NASA_APIKey.v2 '') =
      [''fooBar'', ''NASA'', ''APIKey'', ''v2'']"
    by code_simp
  have c: "concat (map splitCamel [''fooBar'', ''NASA'', ''APIKey'', ''v2'']) =
      [''foo'', ''Bar'', ''NASA'', ''API'', ''Key'', ''v2'']"
    by code_simp
  have j: "join ''.'' (map toLowerCase [''foo'', ''Bar'', ''NASA'', ''API'', ''Key'', ''v2''])
      = ''foo.bar.nasa.api.key.v2''"
    by code_simp
  have "toDotCase (JString ''  fooBar--NASA_APIKey.v2 '') =
      Inr (join ''.'' (map toLowerCase (concat (map splitCamel
        (tokenize isDotDelim (trim ''  fooBar--NASA_APIKey.v2 ''))))))"
    using toDotCase_tokens_parts_joined[OF a] by (elim conjE)
  then have "toDotCase (JString ''  fooBar--NASA_APIKey.v2 '') = Inr ''foo.bar.nasa.api.key.v2''"
    by (simp only: t c j)
  with a t c show ?thesis
    by (intro conjI)
qed

text \<open>
  C10. toDotCase is idempotent: on an ASCII string its output is the join by single dots
  of non-empty parts without uppercase letters and without delimiters, the output is
  ASCII, a second application tokenizes it back into the same parts, splits none of them
  further, and returns the same output.
\<close>

theorem toDotCase_idempotent:
  "ascii s \<Longrightarrow>
     \<exists>ps. toDotCase (JString s) = Inr (join ''.'' ps) \<and>
       list_all dot_word ps \<and>
       ascii (join ''.'' ps) \<and>
       tokenize isDotDelim (trim (join ''.'' ps)) = ps \<and>
       concat (map splitCamel ps) = ps \<and>
       toDotCase (JString (join ''.'' ps)) = Inr (join ''.'' ps)"
proof -
  assume a: "ascii s"
  define ps where "ps = map toLowerCase (concat (map splitCamel (tokenize isDotDelim (trim s))))"
  have out: "dot_reference s = join ''.'' ps"
    by (simp only: dot_reference_def ps_def)
  have w: "list_all dot_word ps"
    unfolding ps_def by (rule dot_parts_words)
  have "toDotCase (JString s) = Inr (join ''.'' ps)"
    by (simp only: toDotCase_reference out)
  moreover have "ascii (join ''.'' ps)"
    using ascii_dot_reference[OF a] by (simp only: out)
  moreover have "tokenize isDotDelim (trim (join ''.'' ps)) = ps"
    by (simp only: trim_join[OF w] tokenize_join[OF w])
  moreover have "concat (map splitCamel ps) = ps"
    using w by (rule splitCamel_words)
  moreover have "toDotCase (JString (join ''.'' ps)) = Inr (join ''.'' ps)"
    by (simp only: toDotCase_reference dot_reference_join[OF w])
  ultimately show ?thesis
    using w by blast
qed

theorem toDotCase_idempotent_witness:
  "ascii '' fooBar--BAZQux_v2 '' \<and>
   toDotCase (JString '' fooBar--BAZQux_v2 '') = Inr ''foo.bar.baz.qux.v2'' \<and>
   toDotCase (JString ''foo.bar.baz.qux.v2'') = Inr ''foo.bar.baz.qux.v2''"
proof -
  have a: "ascii '' fooBar--BAZQux_v2 ''"
    by code_simp
  have v: "toDotCase (JString '' fooBar--BAZQux_v2 '') = Inr ''foo.bar.baz.qux.v2''"
    by code_simp
  obtain ps where p: "toDotCase (JString '' fooBar--BAZQux_v2 '') = Inr (join ''.'' ps)"
      "toDotCase (JString (join ''.'' ps)) = Inr (join ''.'' ps)"
    using toDotCase_idempotent[OF a] by blast
  from p(1) v have "join ''.'' ps = ''foo.bar.baz.qux.v2''"
    by simp
  with p(2) have "toDotCase (JString ''foo.bar.baz.qux.v2'') = Inr ''foo.bar.baz.qux.v2''"
    by (simp only:)
  with a v show ?thesis
    by (intro conjI)
qed

section \<open>Inputs that are not strings\<close>

text \<open>
  C8. Each of toKebabCase, toCamelCase and toDotCase returns the empty string on
  \<open>null\<close> and on \<open>undefined\<close>.
\<close>

theorem null_undefined_give_empty:
  "toKebabCase JNull = Inr [] \<and> toKebabCase JUndefined = Inr [] \<and>
   toCamelCase JNull = Inr [] \<and> toCamelCase JUndefined = Inr [] \<and>
   toDotCase JNull = Inr [] \<and> toDotCase JUndefined = Inr []"
  by simp

text \<open>
  C9. On a value that is neither a string nor \<open>null\<close> nor \<open>undefined\<close>, each of the
  three converters throws a TypeError: the result is the error and no string.
\<close>

theorem non_string_throws:
  "v \<noteq> JNull \<Longrightarrow> v \<noteq> JUndefined \<Longrightarrow> (\<forall>s. v \<noteq> JString s) \<Longrightarrow>
     toKebabCase v = Inl (TypeError (''Expected string, received '' @ typeof v)) \<and>
     toCamelCase v = Inl (TypeError ''toCamelCase: input must be a string, null, or undefined'') \<and>
     toDotCase v = Inl (TypeError ''toDotCase: input must be a string, null, or undefined'')"
  by (cases v) simp_all

theorem non_string_throws_witness:
  "JNumber 123 \<noteq> JNull \<and> JNumber 123 \<noteq> JUndefined \<and> (\<forall>s. JNumber 123 \<noteq> JString s) \<and>
   toKebabCase (JNumber 123) = Inl (TypeError ''Expected string, received number'') \<and>
   toCamelCase (JNumber 123) =
     Inl (TypeError ''toCamelCase: input must be a string, null, or undefined'') \<and>
   toDotCase (JNumber 123) =
     Inl (TypeError ''toDotCase: input must be a string, null, or undefined'')"
  using non_string_throws[of "JNumber 123"] by simp

end
